theory Spec2Isabelle
  imports Main "HOL-Library.Word" "HOL-Library.Signed_Division"
begin

unbundle bit_operations_syntax

section \<open>The SCSI hard disk of RaSCSI (devices/scsihd.cpp)\<close>

text \<open>
  The theory embeds the four member functions of \<^verbatim>\<open>SCSIHD\<close> that scsihd.cpp defines:
  \<^verbatim>\<open>Reset\<close>, \<^verbatim>\<open>Open\<close>, \<^verbatim>\<open>Inquiry\<close> and \<^verbatim>\<open>ModeSelect\<close>. The object is a record that
  every function takes and returns; a C++ exception and a failed \<^verbatim>\<open>ASSERT\<close> are values of
  the type \<open>outcome\<close>; a pointer argument is the memory it points to, a function from
  element offsets to elements, so that an access past the length the caller gives is a
  read of that memory and shows in the trace of the call. The constructor is left out: it
  passes its arguments to the constructor of the base class and calls \<^verbatim>\<open>SetProtected(true)\<close>,
  and the properties below are about a device in any state.
\<close>

subsection \<open>Machine types\<close>

type_synonym BYTE = "8 word"

text \<open>
  Modelled from the spec: the typedef of \<^verbatim>\<open>DWORD\<close> (os.h) is missing; the spec gives
  \<^verbatim>\<open>blockCount: uint32\<close>, so a \<^verbatim>\<open>DWORD\<close> is an unsigned 32-bit word.
\<close>

type_synonym DWORD = "32 word"

text \<open>\<^verbatim>\<open>off64_t\<close> is a signed 64-bit integer: the word is read with \<open>sint\<close>.\<close>

type_synonym off64_t = "64 word"

type_synonym Filepath = string

subsection \<open>Outcomes\<close>

text \<open>
  A call returns a value, throws \<^verbatim>\<open>ioexception\<close> with its message, or stops at an
  \<^verbatim>\<open>ASSERT\<close> whose condition is false.
\<close>

datatype 'a outcome = Returns 'a | Throws_ioexception string | Assert_failed

subsection \<open>Device state\<close>

text \<open>
  Modelled from the spec: the status codes (\<^verbatim>\<open>STATUS_NOERROR\<close>, ...) are macros of a
  missing header; the spec lists the enumeration NoError, InvalidCdb, InvalidParam,
  NotReady and others. \<open>STATUS_other\<close> stands for the others.
\<close>

datatype status =
    STATUS_NOERROR
  | STATUS_NOTREADY
  | STATUS_INVALIDCDB
  | STATUS_INVALIDPRM
  | STATUS_other DWORD

text \<open>
  Modelled from the spec: the base classes \<^verbatim>\<open>Disk\<close>, \<^verbatim>\<open>Device\<close> and \<^verbatim>\<open>FileSupport\<close>
  that hold the state are missing. The fields are those of the spec's DeviceState
  (ready, locked, attention, resetPending, lastStatus, sectorSizeExponent, blockCount,
  productIdentity, writeProtected), the logical unit that \<^verbatim>\<open>GetLun\<close> returns and the
  path that \<^verbatim>\<open>SetPath\<close> records. \<open>disk_size\<close> and \<open>disk_blocks\<close> are \<^verbatim>\<open>disk.size\<close> and
  \<^verbatim>\<open>disk.blocks\<close> of the source.
\<close>

record SCSIHD =
  dev_ready :: bool
  dev_locked :: bool
  dev_attn :: bool
  dev_reset :: bool
  dev_status :: status
  disk_size :: nat
  disk_blocks :: DWORD
  dev_vendor :: string
  dev_product :: string
  dev_revision :: string
  dev_protected :: bool
  dev_lun :: DWORD
  dev_path :: "Filepath option"

text \<open>
  Modelled from the spec: \<^verbatim>\<open>SetLocked\<close> of the missing base class; it writes the flag
  \<open>locked\<close> of the spec and nothing else.
\<close>

definition SetLocked :: "bool \<Rightarrow> SCSIHD \<Rightarrow> SCSIHD" where
  "SetLocked b d = d\<lparr>dev_locked := b\<rparr>"

text \<open>
  Modelled from the spec: \<^verbatim>\<open>SetAttn\<close> of the missing base class; it writes the flag
  \<open>attention\<close> of the spec and nothing else.
\<close>

definition SetAttn :: "bool \<Rightarrow> SCSIHD \<Rightarrow> SCSIHD" where
  "SetAttn b d = d\<lparr>dev_attn := b\<rparr>"

text \<open>
  Modelled from the spec: \<^verbatim>\<open>SetReset\<close> of the missing base class; it writes the flag
  \<open>resetPending\<close> of the spec and nothing else.
\<close>

definition SetReset :: "bool \<Rightarrow> SCSIHD \<Rightarrow> SCSIHD" where
  "SetReset b d = d\<lparr>dev_reset := b\<rparr>"

text \<open>
  Modelled from the spec: \<^verbatim>\<open>SetStatusCode\<close> of the missing base class; it writes
  \<open>lastStatus\<close> of the spec and nothing else.
\<close>

definition SetStatusCode :: "status \<Rightarrow> SCSIHD \<Rightarrow> SCSIHD" where
  "SetStatusCode c d = d\<lparr>dev_status := c\<rparr>"

text \<open>
  Modelled from the spec: \<^verbatim>\<open>IsReady\<close> of the missing base class; it reads \<open>ready\<close> of the
  spec.
\<close>

definition IsReady :: "SCSIHD \<Rightarrow> bool" where
  "IsReady d = dev_ready d"

text \<open>
  Modelled from the spec: \<^verbatim>\<open>GetLun\<close> of the missing base class; it reads the logical unit
  that the spec says is assigned to the device.
\<close>

definition GetLun :: "SCSIHD \<Rightarrow> DWORD" where
  "GetLun d = dev_lun d"

text \<open>
  Modelled from the spec: \<^verbatim>\<open>Device::SetProduct\<close> is missing. The spec: the name that
  \<^verbatim>\<open>Open\<close> derives becomes the product identity of the device. The spec gives no meaning
  to the second argument, for which \<^verbatim>\<open>Open\<close> passes \<^verbatim>\<open>false\<close>.
\<close>

definition SetProduct :: "string \<Rightarrow> bool \<Rightarrow> SCSIHD \<Rightarrow> SCSIHD" where
  "SetProduct name force d = d\<lparr>dev_product := name\<rparr>"

text \<open>
  Modelled from the spec: \<^verbatim>\<open>Disk::Open\<close> is missing. The spec: mark the device ready.
\<close>

definition Disk_Open :: "Filepath \<Rightarrow> SCSIHD \<Rightarrow> SCSIHD" where
  "Disk_Open p d = d\<lparr>dev_ready := True\<rparr>"

text \<open>
  Modelled from the spec: \<^verbatim>\<open>FileSupport::SetPath\<close> is missing. The spec: record the backing
  path for later reference.
\<close>

definition SetPath :: "Filepath \<Rightarrow> SCSIHD \<Rightarrow> SCSIHD" where
  "SetPath p d = d\<lparr>dev_path := Some p\<rparr>"

text \<open>
  Modelled from the spec: \<^verbatim>\<open>Fileio\<close> is missing. The spec's backing-store abstraction:
  \<^verbatim>\<open>openReadOnly(path) -> handle | fails\<close>, \<^verbatim>\<open>size(handle) -> integer\<close>. A store maps a
  path to the size of its file, or to \<open>None\<close> when the file cannot be opened read-only.
\<close>

type_synonym Fileio = "Filepath \<Rightarrow> off64_t option"

subsection \<open>Reset\<close>

definition Reset :: "SCSIHD \<Rightarrow> SCSIHD" where
  "Reset d =
     (let d1 = SetLocked False d;
          d2 = SetAttn False d1;
          d3 = SetReset False d2
      in SetStatusCode STATUS_NOERROR d3)"

subsection \<open>Open\<close>

text \<open>\<^verbatim>\<open>%d\<close> of \<^verbatim>\<open>sprintf\<close>: the decimal digits of an \<^verbatim>\<open>int\<close>, with a minus sign below 0.\<close>

definition digit_char :: "nat \<Rightarrow> char" where
  "digit_char n = ''0123456789'' ! n"

function dec_nat :: "nat \<Rightarrow> string" where
  "dec_nat n = (if n < 10 then [digit_char n] else dec_nat (n div 10) @ [digit_char (n mod 10)])"
  by pat_completeness auto
termination
  by (relation "measure (\<lambda>n. n)") auto

declare dec_nat.simps [simp del]

definition sprintf_d :: "int \<Rightarrow> string" where
  "sprintf_d i = (if i < 0 then CHR ''-'' # dec_nat (nat (- i)) else dec_nat (nat i))"

text \<open>
  The chain of \<^verbatim>\<open>sprintf\<close> calls of \<^verbatim>\<open>Open\<close>. \<^verbatim>\<open>capacity\<close> is an \<^verbatim>\<open>int\<close>; C's \<^verbatim>\<open>/\<close> and
  \<^verbatim>\<open>%\<close> truncate towards zero (\<open>sdiv\<close>, \<open>smod\<close>).
\<close>

definition default_product :: "int \<Rightarrow> string" where
  "default_product capacity =
     (if capacity < 300 then ''PRODRIVE LPS'' @ sprintf_d capacity @ ''S''
      else if capacity < 600 then ''MAVERICK'' @ sprintf_d capacity @ ''S''
      else if capacity < 800 then ''LIGHTNING'' @ sprintf_d capacity @ ''S''
      else if capacity < 1000 then ''TRAILBRAZER'' @ sprintf_d capacity @ ''S''
      else if capacity < 2000 then ''FIREBALL'' @ sprintf_d capacity @ ''S''
      else ''FBSE'' @ sprintf_d (capacity sdiv 1000) @ ''.''
             @ sprintf_d ((capacity smod 1000) sdiv 100) @ ''S'')"

text \<open>
  \<^verbatim>\<open>Open\<close>. The three \<^verbatim>\<open>throw\<close> statements come before the first assignment, so the state
  that goes with a thrown exception is the state of the call. \<^verbatim>\<open>size >> 9\<close> is the
  arithmetic shift, \<^verbatim>\<open>size\<close> being signed; the cast to \<^verbatim>\<open>DWORD\<close> keeps the low 32 bits;
  \<^verbatim>\<open>int capacity = disk.blocks >> 11\<close> reads the shifted word as a signed 32-bit number.
\<close>

definition Open :: "Fileio \<Rightarrow> Filepath \<Rightarrow> SCSIHD \<Rightarrow> unit outcome \<times> SCSIHD" where
  "Open fio p d =
     (if IsReady d then (Assert_failed, d)
      else case fio p of
        None \<Rightarrow> (Throws_ioexception ''Can't open hard disk file read-only'', d)
      | Some fsize \<Rightarrow>
          if fsize AND 0x1ff \<noteq> 0
          then (Throws_ioexception ''File size must be a multiple of 512 bytes'', d)
          else if 2 * 1024 * 1024 * 1024 * 1024 < sint fsize
          then (Throws_ioexception ''File size must not exceed 2 TB'', d)
          else
            let d1 = d\<lparr>disk_size := 9\<rparr>;
                d2 = d1\<lparr>disk_blocks := ucast (signed_drop_bit 9 fsize)\<rparr>;
                capacity = sint (drop_bit 11 (disk_blocks d2));
                d3 = SetProduct (default_product capacity) False d2;
                d4 = Disk_Open p d3
            in (Returns (), SetPath p d4))"

subsection \<open>Inquiry\<close>

text \<open>
  \<^verbatim>\<open>memset(buf, 0, n)\<close> and \<^verbatim>\<open>memcpy(&buf[at], src, n)\<close> on the memory behind \<^verbatim>\<open>buf\<close>.
\<close>

definition memset0 :: "(nat \<Rightarrow> BYTE) \<Rightarrow> nat \<Rightarrow> (nat \<Rightarrow> BYTE)" where
  "memset0 buf n = (\<lambda>i. if i < n then 0 else buf i)"

definition memcpy_at :: "(nat \<Rightarrow> BYTE) \<Rightarrow> nat \<Rightarrow> string \<Rightarrow> nat \<Rightarrow> (nat \<Rightarrow> BYTE)" where
  "memcpy_at buf at src n =
     (\<lambda>i. if at \<le> i \<and> i < at + n then of_nat (of_char (src ! (i - at))) else buf i)"

text \<open>A string cut or filled with spaces to \<open>w\<close> characters.\<close>

definition pad_to :: "nat \<Rightarrow> string \<Rightarrow> string" where
  "pad_to w s = take w (s @ replicate w (CHR '' ''))"

text \<open>
  Modelled from the spec: \<^verbatim>\<open>GetPaddedName\<close> is missing. The spec: 28 bytes of
  space-padded vendor/product/revision identity, truncated/padded to exactly 28 bytes;
  the identity fields are padded fixed-width strings. The widths 8, 16 and 4 are those of
  the three fields in SCSI identification data.
\<close>

definition GetPaddedName :: "SCSIHD \<Rightarrow> string" where
  "GetPaddedName d = pad_to 8 (dev_vendor d) @ pad_to 16 (dev_product d) @ pad_to 4 (dev_revision d)"

text \<open>
  \<^verbatim>\<open>Inquiry\<close>. \<^verbatim>\<open>cdb\<close> points to \<^verbatim>\<open>DWORD\<close>s and \<^verbatim>\<open>buf\<close> to bytes; neither is null
  (\<^verbatim>\<open>ASSERT(cdb)\<close>, \<^verbatim>\<open>ASSERT(buf)\<close>). \<^verbatim>\<open>(int)cdb[4]\<close> reads the \<^verbatim>\<open>DWORD\<close> as a signed
  32-bit number; \<^verbatim>\<open>buf[4] + 5\<close> is computed in \<^verbatim>\<open>int\<close>. \<^verbatim>\<open>major\<close> and \<^verbatim>\<open>minor\<close> are not
  used.
\<close>

definition Inquiry ::
  "(nat \<Rightarrow> DWORD) \<Rightarrow> DWORD \<Rightarrow> DWORD \<Rightarrow> (nat \<Rightarrow> BYTE) \<times> SCSIHD
     \<Rightarrow> int outcome \<times> (nat \<Rightarrow> BYTE) \<times> SCSIHD" where
  "Inquiry cdb major minor st =
     (let buf = fst st; d = snd st in
      if cdb 0 \<noteq> 0x12 then (Assert_failed, buf, d)
      else if cdb 1 AND 0x01 \<noteq> 0 then (Returns 0, buf, SetStatusCode STATUS_INVALIDCDB d)
      else if \<not> IsReady d then (Returns 0, buf, SetStatusCode STATUS_NOTREADY d)
      else
        let buf1 = memset0 buf 8;
            buf2 = (if drop_bit 5 (cdb 1) AND 0x07 \<noteq> GetLun d then buf1(0 := 0x7f) else buf1);
            buf3 = buf2(2 := 0x02);
            buf4 = buf3(3 := 0x02);
            buf5 = buf4(4 := 122 + 3);
            buf6 = memcpy_at buf5 8 (GetPaddedName d) 28;
            sz = uint (buf6 4) + 5;
            sz' = (if sz > sint (cdb 4) then sint (cdb 4) else sz)
        in (Returns sz', buf6, SetStatusCode STATUS_NOERROR d))"

subsection \<open>ModeSelect\<close>

text \<open>
  What a call of \<^verbatim>\<open>ModeSelect\<close> does besides its result: the bytes it reads through
  \<^verbatim>\<open>buf\<close>, as offsets from the pointer the caller passed, and what it logs and prints.
\<close>

datatype event =
    Read_buf nat
  | Log_warn_page8 int
  | Print_byte BYTE
  | Print_newline
  | Print_unknown_page BYTE

text \<open>
  \<^verbatim>\<open>size = 1 << disk.size\<close>, an \<^verbatim>\<open>int\<close>: the low 32 bits of \<open>2 ^ disk.size\<close>. (C leaves
  the shift undefined when \<^verbatim>\<open>disk.size\<close> is 31 or more.)
\<close>

definition sector_size :: "SCSIHD \<Rightarrow> 32 word" where
  "sector_size d = push_bit (disk_size d) 1"

text \<open>
  The condition of the header check, \<^verbatim>\<open>||\<close> evaluated from the left: the result is
  whether a byte differs, with the reads made until then. \<^verbatim>\<open>(BYTE)(size >> k)\<close> keeps
  bits \<open>k\<close> to \<open>k + 7\<close> of \<^verbatim>\<open>size\<close>.
\<close>

definition header_mismatch :: "SCSIHD \<Rightarrow> (nat \<Rightarrow> BYTE) \<Rightarrow> bool \<times> event list" where
  "header_mismatch d buf =
     (let sz = sector_size d in
      if buf 9 \<noteq> ucast (drop_bit 16 sz) then (True, [Read_buf 9])
      else if buf 10 \<noteq> ucast (drop_bit 8 sz) then (True, [Read_buf 9, Read_buf 10])
      else (buf 11 \<noteq> ucast sz, [Read_buf 9, Read_buf 10, Read_buf 11]))"

text \<open>The condition of \<^verbatim>\<open>case 0x03\<close>, for the page that starts at offset \<open>off\<close>.\<close>

definition format_mismatch :: "SCSIHD \<Rightarrow> (nat \<Rightarrow> BYTE) \<Rightarrow> nat \<Rightarrow> bool \<times> event list" where
  "format_mismatch d buf off =
     (let sz = sector_size d in
      if buf (off + 0xc) \<noteq> ucast (drop_bit 8 sz) then (True, [Read_buf (off + 0xc)])
      else (buf (off + 0xd) \<noteq> ucast sz, [Read_buf (off + 0xc), Read_buf (off + 0xd)]))"

text \<open>The \<^verbatim>\<open>for\<close> loop of \<^verbatim>\<open>case 0x08\<close>: it prints \<^verbatim>\<open>buf[i]\<close> for \<^verbatim>\<open>0 <= i < length\<close>.\<close>

definition dump_page :: "(nat \<Rightarrow> BYTE) \<Rightarrow> nat \<Rightarrow> int \<Rightarrow> event list" where
  "dump_page buf off len =
     concat (map (\<lambda>i. [Read_buf (off + i), Print_byte (buf (off + i))]) [0..<nat len])"

text \<open>
  The \<^verbatim>\<open>switch\<close> of one iteration, for the page at offset \<open>off\<close> with \<open>len\<close> bytes
  remaining: whether the iteration returns \<^verbatim>\<open>FALSE\<close>, and its events.
\<close>

definition page_switch :: "SCSIHD \<Rightarrow> (nat \<Rightarrow> BYTE) \<Rightarrow> nat \<Rightarrow> int \<Rightarrow> bool \<times> event list" where
  "page_switch d buf off len =
     (let page = buf off in
      if page = 0x03 then
        (let r = format_mismatch d buf off in (fst r, Read_buf off # snd r))
      else if page = 0x08 then
        (False, Read_buf off # Log_warn_page8 len # dump_page buf off len @ [Print_newline])
      else (False, [Read_buf off, Print_unknown_page page]))"

text \<open>\<^verbatim>\<open>size = buf[1] + 2\<close>, an \<^verbatim>\<open>int\<close> between 2 and 257.\<close>

definition page_size :: "(nat \<Rightarrow> BYTE) \<Rightarrow> nat \<Rightarrow> nat" where
  "page_size buf off = unat (buf (off + 1)) + 2"

text \<open>
  The \<^verbatim>\<open>while\<close> loop. \<open>off\<close> is how far \<^verbatim>\<open>buf\<close> has advanced, \<open>len\<close> is \<^verbatim>\<open>length\<close>, \<open>tr\<close> the
  events so far. The result is \<open>None\<close> if the loop never ends; otherwise whether the loop
  ran to its end (\<open>True\<close>) or returned \<^verbatim>\<open>FALSE\<close> from inside, with the device and the
  events.
\<close>

partial_function (option) parse_pages ::
  "SCSIHD \<Rightarrow> (nat \<Rightarrow> BYTE) \<Rightarrow> nat \<Rightarrow> int \<Rightarrow> event list \<Rightarrow> (bool \<times> SCSIHD \<times> event list) option" where
  "parse_pages d buf off len tr =
     (if 0 < len then
        (let r = page_switch d buf off len in
         if fst r then Some (False, SetStatusCode STATUS_INVALIDPRM d, tr @ snd r)
         else parse_pages d buf (off + page_size buf off) (len - int (page_size buf off))
                (tr @ snd r @ [Read_buf (off + 1)]))
      else Some (True, d, tr))"

declare parse_pages.simps [code]

text \<open>
  \<^verbatim>\<open>ModeSelect\<close>. \<^verbatim>\<open>length\<close> is an \<^verbatim>\<open>int\<close>; the subtractions the function makes from it
  (12, or at most 257 from a positive value) do not overflow.
\<close>

definition after_pages :: "(bool \<times> SCSIHD \<times> event list) \<Rightarrow> bool outcome \<times> SCSIHD \<times> event list" where
  "after_pages r =
     (case r of
        (True, d, tr) \<Rightarrow> (Returns True, SetStatusCode STATUS_NOERROR d, tr)
      | (False, d, tr) \<Rightarrow> (Returns False, d, tr))"

definition ModeSelect ::
  "(nat \<Rightarrow> DWORD) \<Rightarrow> (nat \<Rightarrow> BYTE) \<Rightarrow> int \<Rightarrow> SCSIHD
     \<Rightarrow> (bool outcome \<times> SCSIHD \<times> event list) option" where
  "ModeSelect cdb buf len d =
     (if len < 0 then Some (Assert_failed, d, [])
      else if cdb 1 AND 0x10 \<noteq> 0 then
        (if 12 \<le> len then
           (let r = header_mismatch d buf in
            if fst r then Some (Returns False, SetStatusCode STATUS_INVALIDPRM d, snd r)
            else map_option after_pages (parse_pages d buf 12 (len - 12) (snd r)))
         else map_option after_pages (parse_pages d buf 0 len []))
      else Some (Returns True, SetStatusCode STATUS_NOERROR d, []))"

text \<open>The offsets that a trace reads.\<close>

fun reads_of :: "event list \<Rightarrow> nat list" where
  "reads_of [] = []"
| "reads_of (Read_buf i # es) = i # reads_of es"
| "reads_of (e # es) = reads_of es"

subsection \<open>The pages of a parameter block\<close>

text \<open>
  The layout the spec gives to the bytes after the header: a concatenation of pages, each
  beginning with a page-code byte and a length byte, the page taking its declared length
  plus 2 bytes. \<open>spec_pages buf off len\<close> lists the offsets at which the pages of the \<open>len\<close>
  bytes from \<open>off\<close> begin.
\<close>

function spec_pages :: "(nat \<Rightarrow> BYTE) \<Rightarrow> nat \<Rightarrow> int \<Rightarrow> nat list" where
  "spec_pages buf off len =
     (if 0 < len
      then off # spec_pages buf (off + page_size buf off) (len - int (page_size buf off))
      else [])"
  by pat_completeness auto
termination
proof (relation "measure (\<lambda>(buf, off, len). nat len)")
  fix buf :: "nat \<Rightarrow> BYTE" and off :: nat and len :: int
  assume "0 < len"
  then have "nat (len - int (page_size buf off)) < nat len"
    unfolding page_size_def by arith
  then show "((buf, off + page_size buf off, len - int (page_size buf off)), (buf, off, len))
               \<in> measure (\<lambda>(buf, off, len). nat len)"
    by simp
qed simp

declare spec_pages.simps [simp del]

subsection \<open>Inputs for the examples\<close>

text \<open>A device that has not been opened, with flags and a status left by earlier commands.\<close>

definition closed_device :: SCSIHD where
  "closed_device =
     \<lparr>dev_ready = False, dev_locked = True, dev_attn = True, dev_reset = True,
      dev_status = STATUS_NOTREADY, disk_size = 0, disk_blocks = 0,
      dev_vendor = ''RaSCSI'', dev_product = [], dev_revision = ''0100'',
      dev_protected = True, dev_lun = 0, dev_path = None\<rparr>"

text \<open>The same device after \<^verbatim>\<open>Open\<close> on a file of 2000 MiB.\<close>

definition opened_device :: SCSIHD where
  "opened_device =
     closed_device\<lparr>dev_ready := True, disk_size := 9, disk_blocks := 4096000,
       dev_product := ''FBSE2.0S'', dev_path := Some ''hd.hds''\<rparr>"

text \<open>The memory behind a pointer to an array that holds \<open>xs\<close>, with zeros after it.\<close>

definition array_of :: "'a::zero list \<Rightarrow> nat \<Rightarrow> 'a" where
  "array_of xs = (\<lambda>i. if i < length xs then xs ! i else 0)"

text \<open>A MODE SELECT command with the PF bit, and an INQUIRY command with and without EVPD.\<close>

definition select_cdb :: "nat \<Rightarrow> DWORD" where
  "select_cdb = array_of [0x15, 0x10, 0, 0, 0, 0]"

definition inquiry_cdb :: "nat \<Rightarrow> DWORD" where
  "inquiry_cdb = array_of [0x12, 0x00, 0, 0, 36, 0]"

definition inquiry_vpd_cdb :: "nat \<Rightarrow> DWORD" where
  "inquiry_vpd_cdb = array_of [0x12, 0x01, 0, 0, 36, 0]"

text \<open>
  A parameter block of 67 bytes: the header with block length 512, a format page, a page
  with the unknown code 0x55, a page with code 0x08 and a second format page.
\<close>

definition pages_example :: "BYTE list" where
  "pages_example =
     [0, 0, 0, 8, 0, 0, 0, 0, 0, 0x00, 0x02, 0x00,
      0x03, 0x16, 0, 0, 0, 0, 0, 0, 0, 0, 0, 0, 0x02, 0x00, 0, 0, 0, 0, 0, 0, 0, 0, 0, 0,
      0x55, 0x02, 0xAA, 0xBB,
      0x08, 0x01, 0x07,
      0x03, 0x16, 0, 0, 0, 0, 0, 0, 0, 0, 0, 0, 0x02, 0x00, 0, 0, 0, 0, 0, 0, 0, 0, 0, 0]"

section \<open>Properties\<close>

subsection \<open>Words as numbers\<close>

text \<open>
  The test \<^verbatim>\<open>size & 0x1ff\<close> of \<^verbatim>\<open>Open\<close> is the test that 512 divides the size, also for a
  negative \<^verbatim>\<open>off64_t\<close>.
\<close>

lemma and_1ff: "(w :: 64 word) AND 0x1ff = 0 \<longleftrightarrow> sint w mod 512 = 0"
proof -
  have m: "(0x1ff :: 64 word) = mask 9"
    by (simp add: mask_eq_exp_minus_1)
  have "w AND 0x1ff = 0 \<longleftrightarrow> uint (take_bit 9 w) = 0"
    unfolding m by (simp add: take_bit_eq_mask unsigned_eq_0_iff)
  also have "\<dots> \<longleftrightarrow> uint w mod 512 = 0"
    by (simp only: unsigned_take_bit_eq) (simp add: take_bit_eq_mod)
  also have "uint w mod 512 = (sint w mod 2 ^ 64) mod 512"
    by (simp add: uint_sint take_bit_eq_mod)
  also have "\<dots> = sint w mod 512"
    by (rule mod_mod_cancel) simp
  finally show ?thesis .
qed

text \<open>\<^verbatim>\<open>1 << n\<close> in 32 bits is \<open>2 ^ n\<close> as long as \<open>n\<close> is below 32.\<close>

lemma unat_sector_size: "n < 32 \<Longrightarrow> unat (push_bit n 1 :: 32 word) = 2 ^ n"
proof -
  assume n: "n < 32"
  have "unat (push_bit n 1 :: 32 word) = take_bit 32 (push_bit n (unat (1 :: 32 word)))"
    by (rule unsigned_push_bit_eq [where 'b = 32, simplified])
  also have "\<dots> = take_bit 32 (2 ^ n :: nat)"
    by (simp add: push_bit_eq_mult)
  also have "\<dots> = 2 ^ n"
    using n by (simp add: take_bit_nat_eq_self)
  finally show ?thesis .
qed

lemma uint_mod_32: "uint (w :: 32 word) mod 4294967296 = uint w"
  using uint_lt2p [of w] by simp

text \<open>\<^verbatim>\<open>(BYTE)x\<close> keeps the low eight bits of a 32-bit \<^verbatim>\<open>x\<close>.\<close>

lemma unat_low_byte: "unat (ucast (w :: 32 word) :: 8 word) = unat w mod 256"
  by (simp add: unsigned_ucast_eq take_bit_eq_mod)

text \<open>
  \<^verbatim>\<open>disk.blocks >> 11\<close> is below \<open>2 ^ 21\<close>, so the \<^verbatim>\<open>int\<close> that \<^verbatim>\<open>capacity\<close> holds is the
  unsigned quotient.
\<close>

lemma sint_cap: "sint (drop_bit 11 (w :: 32 word)) = int (unat w div 2048)"
proof -
  have "uint w < 2 ^ 32" using uint_lt2p [of w] by simp
  then have b: "uint w div 2048 < 2 ^ 31" by simp
  have u: "uint (drop_bit 11 w) = uint w div 2048"
    by (simp only: unsigned_drop_bit_eq) (simp add: drop_bit_eq_div take_bit_eq_mod uint_mod_32)
  have "sint (drop_bit 11 w) = signed_take_bit 31 (uint w div 2048)"
    by (simp add: sint_uint u)
  also have "\<dots> = uint w div 2048"
  proof (rule signed_take_bit_int_eq_self)
    have "0 \<le> uint w div 2048" by (simp add: div_int_pos_iff)
    then show "- (2 ^ 31) \<le> uint w div 2048" by simp
    show "uint w div 2048 < 2 ^ 31" by (fact b)
  qed
  finally show ?thesis by (simp add: zdiv_int)
qed

text \<open>\<^verbatim>\<open>(DWORD)(size >> 9)\<close> is the size in sectors modulo \<open>2 ^ 32\<close>.\<close>

lemma blocks_eq:
  "uint (ucast (signed_drop_bit 9 w :: 64 word) :: 32 word) = (sint w div 512) mod 2 ^ 32"
proof -
  have "uint (ucast (signed_drop_bit 9 w) :: 32 word) =
          take_bit 32 (take_bit 64 (drop_bit 9 (sint w)))"
    by (simp add: unsigned_ucast_eq uint_sint [of "signed_drop_bit 9 w"] sint_signed_drop_bit_eq)
  also have "\<dots> = take_bit 32 (drop_bit 9 (sint w))"
    by simp
  finally show ?thesis
    by (simp add: take_bit_eq_mod drop_bit_eq_div)
qed

lemmas setters = SetLocked_def SetAttn_def SetReset_def SetStatusCode_def SetProduct_def
  Disk_Open_def SetPath_def IsReady_def GetLun_def

subsection \<open>Reset\<close>

text \<open>
  C9. \<^verbatim>\<open>Reset\<close> sets \<open>locked\<close>, \<open>attention\<close> and \<open>resetPending\<close> to false and the status to
  NoError and leaves every other field as it was, \<open>ready\<close>, the sector size exponent, the
  block count and the product identity among them; resetting twice gives the state that
  resetting once gives.
\<close>

theorem Reset_idempotent:
  "Reset d = d\<lparr>dev_locked := False, dev_attn := False, dev_reset := False,
               dev_status := STATUS_NOERROR\<rparr>
   \<and> Reset (Reset d) = Reset d
   \<and> dev_ready (Reset d) = dev_ready d
   \<and> disk_size (Reset d) = disk_size d
   \<and> disk_blocks (Reset d) = disk_blocks d
   \<and> dev_product (Reset d) = dev_product d"
  by (simp add: Reset_def setters)

subsection \<open>Open\<close>

text \<open>
  What \<^verbatim>\<open>Open\<close> returns on a device that is not ready, for a file whose size is a multiple
  of 512 and not above 2 TB.
\<close>

lemma Open_returns:
  assumes "\<not> dev_ready d" and "fio p = Some sz" and "sint sz mod 512 = 0" and "sint sz \<le> 2 ^ 41"
  shows "Open fio p d =
           (Returns (),
            d\<lparr>disk_size := 9, disk_blocks := ucast (signed_drop_bit 9 sz),
              dev_product := default_product (sint (drop_bit 11 (ucast (signed_drop_bit 9 sz) :: DWORD))),
              dev_ready := True, dev_path := Some p\<rparr>)"
  using assms by (simp add: Open_def setters and_1ff Let_def)

text \<open>Every \<^verbatim>\<open>Open\<close> that returns leaves the sector size exponent 9.\<close>

lemma Open_sets_exponent:
  assumes "Open fio p d = (Returns (), d')"
  shows "disk_size d' = 9"
  using assms by (auto simp add: Open_def setters Let_def split: if_splits option.splits)

text \<open>
  Below 2 TB the block count is the size in sectors: for a size that is a multiple of 512,
  not negative and less than \<open>2 ^ 41\<close>, \<^verbatim>\<open>Open\<close> returns, the sector size exponent is 9 and
  \<^verbatim>\<open>disk.blocks\<close> is the size divided by 512.
\<close>

lemma Open_blocks_below_2TB:
  assumes "\<not> dev_ready d" and "fio p = Some sz"
    and "0 \<le> sint sz" and "sint sz < 2 ^ 41" and "sint sz mod 512 = 0"
  shows "fst (Open fio p d) = Returns ()
         \<and> disk_size (snd (Open fio p d)) = 9
         \<and> uint (disk_blocks (snd (Open fio p d))) = sint sz div 512"
proof -
  have "sint sz div 512 < 2 ^ 32" using assms(4) by simp
  moreover have "0 \<le> sint sz div 512" using assms(3) by (simp add: div_int_pos_iff)
  ultimately have "(sint sz div 512) mod 2 ^ 32 = sint sz div 512" by simp
  then show ?thesis
    using assms by (simp add: Open_returns blocks_eq)
qed

text \<open>
  C1, at the size \<open>2 ^ 41\<close> that the check \<^verbatim>\<open>size > 2 TB\<close> lets through: \<^verbatim>\<open>Open\<close> returns and
  sets the sector size exponent to 9, but the size in sectors is \<open>2 ^ 32\<close>, which the cast
  to \<^verbatim>\<open>DWORD\<close> turns into the block count 0.
\<close>

theorem Open_2TB_blocks_wrap:
  assumes "\<not> dev_ready d" and "fio p = Some (2 ^ 41)"
  shows "fst (Open fio p d) = Returns ()
         \<and> disk_size (snd (Open fio p d)) = 9
         \<and> disk_blocks (snd (Open fio p d)) = 0
         \<and> sint (2 ^ 41 :: off64_t) div 512 = 2 ^ 32"
proof -
  have s: "sint (2 ^ 41 :: off64_t) = 2 ^ 41" by simp
  have "uint (ucast (signed_drop_bit 9 (2 ^ 41 :: off64_t)) :: DWORD) = 0"
    unfolding blocks_eq s by simp
  then have "(ucast (signed_drop_bit 9 (2 ^ 41 :: off64_t)) :: DWORD) = 0"
    by (simp only: unsigned_eq_0_iff)
  then show ?thesis
    using assms by (simp add: Open_returns s)
qed

theorem Open_2TB_blocks_wrap_witness:
  "\<not> dev_ready closed_device
   \<and> fst (Open (\<lambda>p. Some (2 ^ 41)) ''hd.hds'' closed_device) = Returns ()
   \<and> disk_blocks (snd (Open (\<lambda>p. Some (2 ^ 41)) ''hd.hds'' closed_device)) = 0"
  using Open_2TB_blocks_wrap [of closed_device "\<lambda>p. Some (2 ^ 41)" "''hd.hds''"]
  by (simp add: closed_device_def)

text \<open>
  C6. On a device that is not ready, \<^verbatim>\<open>Open\<close> throws \<^verbatim>\<open>ioexception\<close> and leaves the device
  as it was, so not ready, when the file cannot be opened read-only, when its size is not
  a multiple of 512 and when its size is above \<open>2 ^ 41\<close>.
\<close>

theorem Open_throws:
  assumes "\<not> dev_ready d"
    and "fio p = None \<or> (\<exists>sz. fio p = Some sz \<and> (sint sz mod 512 \<noteq> 0 \<or> 2 ^ 41 < sint sz))"
  shows "\<exists>msg. Open fio p d = (Throws_ioexception msg, d) \<and> \<not> dev_ready (snd (Open fio p d))"
proof -
  from assms have "\<exists>msg. Open fio p d = (Throws_ioexception msg, d)"
    by (auto simp add: Open_def IsReady_def and_1ff)
  with assms(1) show ?thesis by auto
qed

theorem Open_throws_witness:
  "\<not> dev_ready closed_device
   \<and> sint (1000 :: off64_t) mod 512 \<noteq> 0
   \<and> (\<exists>msg. Open (\<lambda>p. Some 1000) ''hd.hds'' closed_device = (Throws_ioexception msg, closed_device))
   \<and> (\<exists>msg. Open (\<lambda>p. Some (2 ^ 41 + 512)) ''hd.hds'' closed_device = (Throws_ioexception msg, closed_device))
   \<and> (\<exists>msg. Open (\<lambda>p. None) ''hd.hds'' closed_device = (Throws_ioexception msg, closed_device))"
proof -
  have r: "\<not> dev_ready closed_device" by (simp add: closed_device_def)
  have a: "sint (1000 :: off64_t) mod 512 \<noteq> 0" by simp
  have b: "2 ^ 41 < sint (2 ^ 41 + 512 :: off64_t)" by simp
  show ?thesis
    using r a
      Open_throws [of closed_device "\<lambda>p. Some 1000" "''hd.hds''"]
      Open_throws [of closed_device "\<lambda>p. Some (2 ^ 41 + 512)" "''hd.hds''"] b
      Open_throws [of closed_device "\<lambda>p. None" "''hd.hds''"]
    by auto
qed

subsection \<open>The product name\<close>

lemma sprintf_d_nat: "sprintf_d (int u) = dec_nat u"
  by (simp add: sprintf_d_def)

lemma sdiv_nat: "int u sdiv int v = int (u div v)"
  by (cases "u = 0"; cases "v = 0") (simp_all add: signed_divide_int_def zdiv_int)

lemma smod_nat: "int u smod int v = int (u mod v)"
  by (cases "u = 0") (simp_all add: signed_modulo_int_def zmod_int)

lemma default_product_nat:
  "default_product (int u) =
     (if u < 300 then ''PRODRIVE LPS'' @ dec_nat u @ ''S''
      else if u < 600 then ''MAVERICK'' @ dec_nat u @ ''S''
      else if u < 800 then ''LIGHTNING'' @ dec_nat u @ ''S''
      else if u < 1000 then ''TRAILBRAZER'' @ dec_nat u @ ''S''
      else if u < 2000 then ''FIREBALL'' @ dec_nat u @ ''S''
      else ''FBSE'' @ dec_nat (u div 1000) @ ''.'' @ dec_nat (u mod 1000 div 100) @ ''S'')"
proof -
  have a: "int u sdiv 1000 = int (u div 1000)"
    using sdiv_nat [of u 1000] by simp
  have b: "(int u smod 1000) sdiv 100 = int (u mod 1000 div 100)"
    using smod_nat [of u 1000] sdiv_nat [of "u mod 1000" 100] by simp
  show ?thesis
    unfolding default_product_def a b sprintf_d_nat by simp
qed

lemmas dec_eval = default_product_def sprintf_d_def dec_nat.simps digit_char_def
  signed_divide_int_def signed_modulo_int_def

text \<open>
  C3. After every \<^verbatim>\<open>Open\<close> that returns, the product identity is the name that the ordered
  thresholds select for \<open>capacityUnits = blockCount >> 11\<close>: below 300 PRODRIVE LPS, below 600
  MAVERICK, below 800 LIGHTNING, below 1000 TRAILBRAZER, below 2000 FIREBALL, each with the
  units in decimal and an S, otherwise FBSE with the thousands, a point, the hundreds digit
  and an S. The boundaries: 299, 300, 599, 600 and 2000 give PRODRIVE LPS299S, MAVERICK300S,
  MAVERICK599S, LIGHTNING600S and FBSE2.0S.
\<close>

theorem Open_product_tiers:
  assumes "Open fio p d = (Returns (), d')"
  shows "dev_product d' =
           (let u = unat (disk_blocks d') div 2048 in
            if u < 300 then ''PRODRIVE LPS'' @ dec_nat u @ ''S''
            else if u < 600 then ''MAVERICK'' @ dec_nat u @ ''S''
            else if u < 800 then ''LIGHTNING'' @ dec_nat u @ ''S''
            else if u < 1000 then ''TRAILBRAZER'' @ dec_nat u @ ''S''
            else if u < 2000 then ''FIREBALL'' @ dec_nat u @ ''S''
            else ''FBSE'' @ dec_nat (u div 1000) @ ''.'' @ dec_nat (u mod 1000 div 100) @ ''S'')
         \<and> default_product 299 = ''PRODRIVE LPS299S''
         \<and> default_product 300 = ''MAVERICK300S''
         \<and> default_product 599 = ''MAVERICK599S''
         \<and> default_product 600 = ''LIGHTNING600S''
         \<and> default_product 2000 = ''FBSE2.0S''"
proof -
  from assms have "dev_product d' = default_product (sint (drop_bit 11 (disk_blocks d')))"
    by (auto simp add: Open_def setters Let_def split: if_splits option.splits)
  then have "dev_product d' = default_product (int (unat (disk_blocks d') div 2048))"
    by (simp only: sint_cap)
  then have g: "dev_product d' =
           (let u = unat (disk_blocks d') div 2048 in
            if u < 300 then ''PRODRIVE LPS'' @ dec_nat u @ ''S''
            else if u < 600 then ''MAVERICK'' @ dec_nat u @ ''S''
            else if u < 800 then ''LIGHTNING'' @ dec_nat u @ ''S''
            else if u < 1000 then ''TRAILBRAZER'' @ dec_nat u @ ''S''
            else if u < 2000 then ''FIREBALL'' @ dec_nat u @ ''S''
            else ''FBSE'' @ dec_nat (u div 1000) @ ''.'' @ dec_nat (u mod 1000 div 100) @ ''S'')"
    by (simp only: default_product_nat Let_def)
  have e1: "default_product 299 = ''PRODRIVE LPS299S''" by (simp add: dec_eval)
  have e2: "default_product 300 = ''MAVERICK300S''" by (simp add: dec_eval)
  have e3: "default_product 599 = ''MAVERICK599S''" by (simp add: dec_eval)
  have e4: "default_product 600 = ''LIGHTNING600S''" by (simp add: dec_eval)
  have e5: "default_product 2000 = ''FBSE2.0S''" by (simp add: dec_eval)
  from g e1 e2 e3 e4 e5 show ?thesis by (intro conjI)
qed

theorem Open_product_tiers_witness:
  "Open (\<lambda>p. Some 2097152000) ''hd.hds'' closed_device = (Returns (), opened_device)
   \<and> unat (disk_blocks opened_device) div 2048 = 2000
   \<and> dev_product opened_device = ''FBSE2.0S''"
proof -
  have o: "Open (\<lambda>p. Some 2097152000) ''hd.hds'' closed_device = (Returns (), opened_device)"
    by (simp add: Open_def setters closed_device_def opened_device_def Let_def dec_eval)
  have u: "unat (disk_blocks opened_device) div 2048 = 2000"
    by (simp add: opened_device_def closed_device_def)
  show ?thesis
    using o u Open_product_tiers [OF o] by (simp add: dec_nat.simps digit_char_def)
qed

text \<open>
  The name fits the array \<^verbatim>\<open>char product[17]\<close> that \<^verbatim>\<open>sprintf\<close> writes: it has at most 16
  characters, whatever the block count.
\<close>

lemma dec_nat_length: "0 < k \<Longrightarrow> n < 10 ^ k \<Longrightarrow> length (dec_nat n) \<le> k"
proof (induction k arbitrary: n)
  case 0
  then show ?case by simp
next
  case (Suc k)
  show ?case
  proof (cases "n < 10")
    case True
    then show ?thesis by (subst dec_nat.simps) simp
  next
    case False
    with Suc.prems have k: "0 < k" by (cases k) simp_all
    from Suc.prems have "n div 10 < 10 ^ k" by (simp add: less_mult_imp_div_less mult.commute)
    with Suc.IH k have "length (dec_nat (n div 10)) \<le> k" by blast
    with False show ?thesis by (subst dec_nat.simps) simp
  qed
qed

lemma Open_product_fits:
  assumes "Open fio p d = (Returns (), d')"
  shows "length (dev_product d') \<le> 16"
proof -
  define u where "u = unat (disk_blocks d') div 2048"
  from assms have "dev_product d' = default_product (sint (drop_bit 11 (disk_blocks d')))"
    by (auto simp add: Open_def setters Let_def split: if_splits option.splits)
  then have p: "dev_product d' = default_product (int u)"
    by (simp only: sint_cap u_def)
  have "unat (disk_blocks d') < 4294967296"
    using unsigned_less [of "disk_blocks d'", where 'a = nat] by simp
  then have b: "u < 2097152" by (simp add: u_def)
  have l3: "u < 1000 \<Longrightarrow> length (dec_nat u) \<le> 3"
    using dec_nat_length [of 3 u] by simp
  have l4: "u < 2000 \<Longrightarrow> length (dec_nat u) \<le> 4"
    using dec_nat_length [of 4 u] by simp
  have t: "length (dec_nat (u div 1000)) \<le> 4"
    using b dec_nat_length [of 4 "u div 1000"] by simp
  have h: "length (dec_nat (u mod 1000 div 100)) \<le> 1"
    using dec_nat_length [of 1 "u mod 1000 div 100"] by simp
  show ?thesis
    unfolding p default_product_nat using l3 l4 t h by auto
qed

subsection \<open>Inquiry\<close>

text \<open>\<^verbatim>\<open>memcpy\<close> copies 28 bytes of the padded name, which has 28 characters.\<close>

lemma GetPaddedName_length: "length (GetPaddedName d) = 28"
  by (simp add: GetPaddedName_def pad_to_def)

text \<open>
  C7. With the EVPD bit of \<^verbatim>\<open>cdb[1]\<close> set, \<^verbatim>\<open>Inquiry\<close> returns 0 and sets the status to
  InvalidCdb whether the device is ready or not, since the check comes before the ready
  check; the buffer is returned as it was.
\<close>

theorem Inquiry_vpd:
  assumes "cdb 0 = 0x12" and "cdb 1 AND 0x01 \<noteq> 0"
  shows "Inquiry cdb major minor (buf, d) = (Returns 0, buf, d\<lparr>dev_status := STATUS_INVALIDCDB\<rparr>)"
  using assms by (simp add: Inquiry_def setters)

theorem Inquiry_vpd_witness:
  "inquiry_vpd_cdb 0 = 0x12
   \<and> inquiry_vpd_cdb 1 AND 0x01 \<noteq> 0
   \<and> Inquiry inquiry_vpd_cdb 0 0 (array_of [], closed_device) =
       (Returns 0, array_of [], closed_device\<lparr>dev_status := STATUS_INVALIDCDB\<rparr>)
   \<and> Inquiry inquiry_vpd_cdb 0 0 (array_of [], opened_device) =
       (Returns 0, array_of [], opened_device\<lparr>dev_status := STATUS_INVALIDCDB\<rparr>)"
proof -
  have a: "inquiry_vpd_cdb 0 = 0x12" by (simp add: inquiry_vpd_cdb_def array_of_def)
  have b: "inquiry_vpd_cdb 1 AND 0x01 \<noteq> 0" by (simp add: inquiry_vpd_cdb_def array_of_def)
  show ?thesis
    using a b Inquiry_vpd [OF a b, of 0 0 "array_of []" closed_device]
      Inquiry_vpd [OF a b, of 0 0 "array_of []" opened_device]
    by simp
qed

lemma Inquiry_returns_min:
  assumes "cdb 0 = 0x12" and "cdb 1 AND 0x01 = 0" and "dev_ready d"
  shows "fst (Inquiry cdb major minor (buf, d)) = Returns (min 130 (sint (cdb 4)))"
  using assms by (simp add: Inquiry_def setters Let_def memcpy_at_def min_def)

text \<open>
  C5. On a ready device, with the EVPD bit clear, \<^verbatim>\<open>Inquiry\<close> sets \<^verbatim>\<open>buf[4]\<close> to 125, sets
  the status to NoError and returns the smaller of 130 and the allocation length
  \<^verbatim>\<open>(int)cdb[4]\<close>.
\<close>

theorem Inquiry_size:
  assumes "cdb 0 = 0x12" and "cdb 1 AND 0x01 = 0" and "dev_ready d"
  shows "\<exists>buf'. Inquiry cdb major minor (buf, d) =
            (Returns (min 130 (sint (cdb 4))), buf', d\<lparr>dev_status := STATUS_NOERROR\<rparr>)
          \<and> buf' 4 = 125"
  using assms by (simp add: Inquiry_def setters Let_def memcpy_at_def min_def)

theorem Inquiry_size_witness:
  "inquiry_cdb 0 = 0x12
   \<and> inquiry_cdb 1 AND 0x01 = 0
   \<and> dev_ready opened_device
   \<and> sint (inquiry_cdb 4) = 36
   \<and> (\<exists>buf'. Inquiry inquiry_cdb 0 0 (array_of [], opened_device) =
         (Returns 36, buf', opened_device\<lparr>dev_status := STATUS_NOERROR\<rparr>)
       \<and> buf' 4 = 125)"
proof -
  have a: "inquiry_cdb 0 = 0x12" by (simp add: inquiry_cdb_def array_of_def)
  have b: "inquiry_cdb 1 AND 0x01 = 0" by (simp add: inquiry_cdb_def array_of_def)
  have c: "dev_ready opened_device" by (simp add: opened_device_def)
  have e: "sint (inquiry_cdb 4) = 36" by (simp add: inquiry_cdb_def array_of_def)
  show ?thesis
    using a b c e Inquiry_size [OF a b c, of 0 0 "array_of []"] by simp
qed

text \<open>
  For a command descriptor whose entries are bytes, as a CDB's are, \<^verbatim>\<open>(int)cdb[4]\<close> is the
  unsigned allocation length.
\<close>

lemma Inquiry_returns_min_of_byte:
  assumes "cdb 0 = 0x12" and "cdb 1 AND 0x01 = 0" and "dev_ready d" and "unat (cdb 4) < 256"
  shows "fst (Inquiry cdb major minor (buf, d)) = Returns (min 130 (int (unat (cdb 4))))"
proof -
  have "int (unat (cdb 4)) < int 256"
    using assms(4) by (simp only: of_nat_less_iff)
  then have l: "uint (cdb 4) < 256" by simp
  have "signed_take_bit 31 (uint (cdb 4)) = uint (cdb 4)"
  proof (rule signed_take_bit_int_eq_self)
    show "- (2 ^ 31) \<le> uint (cdb 4)" by (rule order_trans [of _ 0]) simp_all
    from l show "uint (cdb 4) < 2 ^ 31" by simp
  qed
  then have "sint (cdb 4) = int (unat (cdb 4))"
    by (simp add: sint_uint)
  then show ?thesis
    using Inquiry_returns_min [OF assms(1,2,3), of major minor buf] by simp
qed

subsection \<open>ModeSelect: the loop returns\<close>

text \<open>An iteration takes at least two bytes off the remaining length.\<close>

lemma page_size_decreases: "0 < len \<Longrightarrow> nat (len - int (page_size buf off)) < nat len"
  unfolding page_size_def by arith

lemma parse_pages_returns: "\<exists>r. parse_pages d buf off len tr = Some r"
proof (induction "nat len" arbitrary: off len tr rule: less_induct)
  case less
  show ?case
  proof (cases "0 < len")
    case False
    then show ?thesis by (subst parse_pages.simps) auto
  next
    case True
    from less [OF page_size_decreases [OF True]] show ?thesis
      by (subst parse_pages.simps) (auto simp add: Let_def)
  qed
qed

subsection \<open>ModeSelect: the block length checks as numbers\<close>

lemma unat_drop_bit_32: "unat (drop_bit k (w :: 32 word)) = unat w div 2 ^ k"
  unfolding unat_drop_bit_eq by (simp add: drop_bit_eq_div)

lemma byte_eq_iff: "(b :: BYTE) = c \<longleftrightarrow> unat b = unat c"
  by (rule word_unat_eq_iff)

lemma unat_byte_less: "unat (b :: BYTE) < 256"
  using unsigned_less [of b, where 'a = nat] by simp

lemma div_mod_256:
  fixes k c :: nat
  assumes "c < 256"
  shows "(k * 256 + c) div 256 = k" and "(k * 256 + c) mod 256 = c"
  using assms by simp_all

lemma be16_unique:
  fixes b c v :: nat
  assumes "b < 256" "c < 256" "v < 65536"
  shows "(b = v div 256 mod 256 \<and> c = v mod 256) \<longleftrightarrow> b * 256 + c = v"
proof
  assume h: "b = v div 256 mod 256 \<and> c = v mod 256"
  have "v div 256 < 256" using assms(3) by simp
  then have "v div 256 mod 256 = v div 256" by simp
  with h have "b * 256 + c = v div 256 * 256 + v mod 256" by simp
  then show "b * 256 + c = v" by simp
next
  assume e: "b * 256 + c = v"
  have "(b * 256 + c) div 256 = b" using assms(2) by simp
  moreover have "(b * 256 + c) mod 256 = c" using assms(2) by simp
  ultimately show "b = v div 256 mod 256 \<and> c = v mod 256"
    using e assms(1) by simp
qed

lemma be24_unique:
  fixes a b c v :: nat
  assumes "a < 256" "b < 256" "c < 256" "v < 16777216"
  shows "(a = v div 65536 mod 256 \<and> b = v div 256 mod 256 \<and> c = v mod 256)
         \<longleftrightarrow> a * 65536 + b * 256 + c = v"
proof -
  define w where "w = v div 256"
  have w: "w < 65536" using assms(4) by (simp add: w_def)
  have d: "v div 65536 = w div 256"
    unfolding w_def by (simp add: div_mult2_eq [symmetric])
  have s: "a * 65536 + b * 256 + c = (a * 256 + b) * 256 + c" by simp
  have l: "(a = w div 256 mod 256 \<and> b = w mod 256) \<longleftrightarrow> a * 256 + b = w"
    using assms(1,2) w by (rule be16_unique)
  have "(a * 256 + b) * 256 + c = v \<longleftrightarrow> a * 256 + b = v div 256 \<and> c = v mod 256"
  proof
    assume e: "(a * 256 + b) * 256 + c = v"
    have "((a * 256 + b) * 256 + c) div 256 = a * 256 + b"
      using assms(3) by (rule div_mod_256)
    moreover have "((a * 256 + b) * 256 + c) mod 256 = c"
      using assms(3) by (rule div_mod_256)
    ultimately show "a * 256 + b = v div 256 \<and> c = v mod 256"
      unfolding e by simp
  next
    assume "a * 256 + b = v div 256 \<and> c = v mod 256"
    then have "(a * 256 + b) * 256 + c = v div 256 * 256 + v mod 256" by simp
    then show "(a * 256 + b) * 256 + c = v" by simp
  qed
  then show ?thesis
    unfolding s d using l by (auto simp add: w_def)
qed

lemma fst_header_mismatch:
  "fst (header_mismatch d buf) \<longleftrightarrow>
     \<not> (buf 9 = ucast (drop_bit 16 (sector_size d))
        \<and> buf 10 = ucast (drop_bit 8 (sector_size d))
        \<and> buf 11 = ucast (sector_size d))"
  by (simp add: header_mismatch_def Let_def)

lemma fst_format_mismatch:
  "fst (format_mismatch d buf off) \<longleftrightarrow>
     \<not> (buf (off + 12) = ucast (drop_bit 8 (sector_size d))
        \<and> buf (off + 13) = ucast (sector_size d))"
  by (simp add: format_mismatch_def Let_def)

lemma header_mismatch_iff:
  assumes "disk_size d < 24"
  shows "fst (header_mismatch d buf) \<longleftrightarrow>
           unat (buf 9) * 65536 + unat (buf 10) * 256 + unat (buf 11) \<noteq> 2 ^ disk_size d"
proof -
  have v: "unat (sector_size d) = 2 ^ disk_size d"
    unfolding sector_size_def using assms by (intro unat_sector_size) simp
  have "(2::nat) ^ disk_size d < 2 ^ 24"
    using assms by (simp only: power_strict_increasing_iff) 
  then have b: "(2::nat) ^ disk_size d < 16777216" by simp
  show ?thesis
    unfolding fst_header_mismatch byte_eq_iff unat_low_byte unat_drop_bit_32 v
    using be24_unique [OF unat_byte_less unat_byte_less unat_byte_less b, of "buf 9" "buf 10" "buf 11"]
    by simp
qed

lemma exp_less_24: "(2::nat) ^ n < 16777216 \<Longrightarrow> n < 24"
proof -
  assume "(2::nat) ^ n < 16777216"
  then have "(2::nat) ^ n < 2 ^ 24" by simp
  then show "n < 24" by (simp only: power_strict_increasing_iff)
qed

lemma header_match:
  assumes "unat (buf 9) * 65536 + unat (buf 10) * 256 + unat (buf 11) = 2 ^ disk_size d"
  shows "\<not> fst (header_mismatch d buf)"
proof -
  have "unat (buf 9) * 65536 + unat (buf 10) * 256 + unat (buf 11) < 16777216"
    using unat_byte_less [of "buf 9"] unat_byte_less [of "buf 10"] unat_byte_less [of "buf 11"]
    by linarith
  with assms have "disk_size d < 24" by (simp add: exp_less_24)
  with assms show ?thesis by (simp add: header_mismatch_iff)
qed

lemma format_match:
  assumes "unat (buf (off + 12)) * 256 + unat (buf (off + 13)) = 2 ^ disk_size d"
  shows "\<not> fst (format_mismatch d buf off)"
proof -
  have lt: "unat (buf (off + 12)) * 256 + unat (buf (off + 13)) < 65536"
    using unat_byte_less [of "buf (off + 12)"] unat_byte_less [of "buf (off + 13)"]
    by linarith
  with assms have b: "(2::nat) ^ disk_size d < 65536" by simp
  then have "(2::nat) ^ disk_size d < 16777216" by simp
  then have "disk_size d < 24" by (rule exp_less_24)
  then have v: "unat (sector_size d) = 2 ^ disk_size d"
    unfolding sector_size_def by (intro unat_sector_size) simp
  show ?thesis
    unfolding fst_format_mismatch byte_eq_iff unat_low_byte unat_drop_bit_32 v
    using be16_unique [OF unat_byte_less unat_byte_less b, of "buf (off + 12)" "buf (off + 13)"] assms
    by simp
qed

subsection \<open>ModeSelect: the loop over the pages\<close>

lemma fst_page_switch:
  "fst (page_switch d buf off len) \<longleftrightarrow> buf off = 0x03 \<and> fst (format_mismatch d buf off)"
  by (simp add: page_switch_def Let_def)

lemma spec_pages_step:
  "0 < len \<Longrightarrow>
   spec_pages buf off len =
     off # spec_pages buf (off + page_size buf off) (len - int (page_size buf off))"
  by (subst spec_pages.simps) simp

lemma parse_pages_step:
  "0 < len \<Longrightarrow> \<not> fst (page_switch d buf off len) \<Longrightarrow>
   parse_pages d buf off len tr =
     parse_pages d buf (off + page_size buf off) (len - int (page_size buf off))
       (tr @ snd (page_switch d buf off len) @ [Read_buf (off + 1)])"
  by (subst parse_pages.simps) (simp add: Let_def)

lemma parse_pages_stop:
  "0 < len \<Longrightarrow> fst (page_switch d buf off len) \<Longrightarrow>
   parse_pages d buf off len tr =
     Some (False, SetStatusCode STATUS_INVALIDPRM d, tr @ snd (page_switch d buf off len))"
  by (subst parse_pages.simps) (simp add: Let_def)

lemma parse_pages_end:
  "\<not> 0 < len \<Longrightarrow> parse_pages d buf off len tr = Some (True, d, tr)"
  by (subst parse_pages.simps) simp

lemma parse_pages_ok:
  assumes "\<forall>p \<in> set (spec_pages buf off len). buf p = 0x03 \<longrightarrow> \<not> fst (format_mismatch d buf p)"
  shows "\<exists>tr'. parse_pages d buf off len tr = Some (True, d, tr')"
  using assms
proof (induction "nat len" arbitrary: off len tr rule: less_induct)
  case less
  show ?case
  proof (cases "0 < len")
    case False
    then show ?thesis by (simp add: parse_pages_end)
  next
    case True
    from less.prems have h0: "buf off = 0x03 \<longrightarrow> \<not> fst (format_mismatch d buf off)"
      and hr: "\<forall>p \<in> set (spec_pages buf (off + page_size buf off) (len - int (page_size buf off))).
                buf p = 0x03 \<longrightarrow> \<not> fst (format_mismatch d buf p)"
      by (simp_all add: spec_pages_step [OF True])
    from h0 have ns: "\<not> fst (page_switch d buf off len)"
      by (simp add: fst_page_switch)
    from less.hyps [OF page_size_decreases [OF True] hr] show ?thesis
      by (simp add: parse_pages_step [OF True ns])
  qed
qed

lemma parse_pages_extends:
  "parse_pages d buf off len tr = Some (r, d', tr') \<Longrightarrow> \<exists>ev. tr' = tr @ ev"
proof (induction "nat len" arbitrary: off len tr rule: less_induct)
  case less
  show ?case
  proof (cases "0 < len")
    case False
    with less.prems show ?thesis by (simp add: parse_pages_end)
  next
    case True
    show ?thesis
    proof (cases "fst (page_switch d buf off len)")
      case True
      with \<open>0 < len\<close> less.prems show ?thesis by (auto simp add: parse_pages_stop)
    next
      case False
      from less.prems have "parse_pages d buf (off + page_size buf off) (len - int (page_size buf off))
           (tr @ snd (page_switch d buf off len) @ [Read_buf (off + 1)]) = Some (r, d', tr')"
        by (simp add: parse_pages_step [OF True False])
      from less.hyps [OF page_size_decreases [OF True] this] show ?thesis by auto
    qed
  qed
qed

text \<open>
  C8. A call with the PF bit and a length that is not negative returns \<^verbatim>\<open>TRUE\<close> with the
  status NoError when the block length of the header, if the length is at least 12, is
  the sector size and every page with code 0x03 carries the sector size in its bytes 12
  and 13, whatever the codes of the other pages are and however many there are: a page with
  code 0x08 or an unknown code is skipped.
\<close>

theorem ModeSelect_tolerates_unknown_pages:
  assumes "0 \<le> len" and "cdb 1 AND 0x10 \<noteq> 0"
    and "12 \<le> len \<longrightarrow>
           unat (buf 9) * 65536 + unat (buf 10) * 256 + unat (buf 11) = 2 ^ disk_size d"
    and "\<forall>p \<in> set (if 12 \<le> len then spec_pages buf 12 (len - 12) else spec_pages buf 0 len).
           buf p = 0x03 \<longrightarrow>
           unat (buf (p + 12)) * 256 + unat (buf (p + 13)) = 2 ^ disk_size d"
  shows "\<exists>tr. ModeSelect cdb buf len d = Some (Returns True, d\<lparr>dev_status := STATUS_NOERROR\<rparr>, tr)"
proof (cases "12 \<le> len")
  case True
  with assms(3) have "\<not> fst (header_mismatch d buf)" by (simp add: header_match)
  moreover from assms(4) True
  have "\<forall>p \<in> set (spec_pages buf 12 (len - 12)). buf p = 0x03 \<longrightarrow> \<not> fst (format_mismatch d buf p)"
    by (simp add: format_match)
  from parse_pages_ok [OF this, of "snd (header_mismatch d buf)"]
  obtain tr where "parse_pages d buf 12 (len - 12) (snd (header_mismatch d buf)) = Some (True, d, tr)"
    by blast
  ultimately show ?thesis
    using True assms(1,2) by (simp add: ModeSelect_def Let_def after_pages_def SetStatusCode_def)
next
  case False
  with assms(4)
  have "\<forall>p \<in> set (spec_pages buf 0 len). buf p = 0x03 \<longrightarrow> \<not> fst (format_mismatch d buf p)"
    by (simp add: format_match)
  from parse_pages_ok [OF this, of "[]"]
  obtain tr where "parse_pages d buf 0 len [] = Some (True, d, tr)"
    by blast
  then show ?thesis
    using False assms(1,2) by (simp add: ModeSelect_def Let_def after_pages_def SetStatusCode_def)
qed

theorem ModeSelect_tolerates_unknown_pages_witness:
  "(0::int) \<le> 67
   \<and> select_cdb 1 AND 0x10 \<noteq> 0
   \<and> unat (array_of pages_example 9) * 65536 + unat (array_of pages_example 10) * 256
         + unat (array_of pages_example 11) = 2 ^ disk_size opened_device
   \<and> spec_pages (array_of pages_example) 12 (67 - 12) = [12, 36, 40, 43]
   \<and> map (array_of pages_example) [12, 36, 40, 43] = [0x03, 0x55, 0x08, 0x03]
   \<and> (\<exists>tr. ModeSelect select_cdb (array_of pages_example) 67 opened_device =
         Some (Returns True, opened_device\<lparr>dev_status := STATUS_NOERROR\<rparr>, tr))"
proof -
  have a: "(0::int) \<le> 67" by simp
  have b: "select_cdb 1 AND 0x10 \<noteq> 0" by (simp add: select_cdb_def array_of_def)
  have c: "unat (array_of pages_example 9) * 65536 + unat (array_of pages_example 10) * 256
         + unat (array_of pages_example 11) = 2 ^ disk_size opened_device"
    by (simp add: array_of_def pages_example_def opened_device_def closed_device_def)
  have p: "spec_pages (array_of pages_example) 12 (67 - 12) = [12, 36, 40, 43]"
    by (simp add: spec_pages.simps page_size_def array_of_def pages_example_def)
  have m: "map (array_of pages_example) [12, 36, 40, 43] = [0x03, 0x55, 0x08, 0x03]"
    by (simp add: array_of_def pages_example_def)
  have f: "\<forall>p \<in> set (if (12::int) \<le> 67 then spec_pages (array_of pages_example) 12 (67 - 12)
                       else spec_pages (array_of pages_example) 0 67).
             array_of pages_example p = 0x03 \<longrightarrow>
             unat (array_of pages_example (p + 12)) * 256 + unat (array_of pages_example (p + 13))
               = 2 ^ disk_size opened_device"
    using p by (simp add: array_of_def pages_example_def opened_device_def closed_device_def)
  have "12 \<le> (67::int) \<longrightarrow>
         unat (array_of pages_example 9) * 65536 + unat (array_of pages_example 10) * 256
         + unat (array_of pages_example 11) = 2 ^ disk_size opened_device"
    using c by simp
  from ModeSelect_tolerates_unknown_pages
         [where cdb = select_cdb and buf = "array_of pages_example" and len = 67
            and d = opened_device, OF a b this f] a b c p m
  show ?thesis by (intro conjI)
qed

text \<open>
  \<^verbatim>\<open>ModeSelect\<close> changes the status at most: the sector size exponent, the block count and
  \<open>ready\<close> are after the call what they were before, whatever the call returns.
\<close>

lemma parse_pages_device:
  "parse_pages d buf off len tr = Some (r, d', tr') \<Longrightarrow>
   d' = (if r then d else SetStatusCode STATUS_INVALIDPRM d)"
proof (induction "nat len" arbitrary: off len tr rule: less_induct)
  case less
  show ?case
  proof (cases "0 < len")
    case False
    with less.prems show ?thesis by (simp add: parse_pages_end)
  next
    case True
    show ?thesis
    proof (cases "fst (page_switch d buf off len)")
      case True
      with \<open>0 < len\<close> less.prems show ?thesis by (auto simp add: parse_pages_stop)
    next
      case False
      from less.prems have "parse_pages d buf (off + page_size buf off) (len - int (page_size buf off))
           (tr @ snd (page_switch d buf off len) @ [Read_buf (off + 1)]) = Some (r, d', tr')"
        by (simp add: parse_pages_step [OF True False])
      from less.hyps [OF page_size_decreases [OF True] this] show ?thesis .
    qed
  qed
qed

lemma ModeSelect_keeps_geometry:
  assumes "ModeSelect cdb buf len d = Some (r, d', tr)"
  shows "disk_size d' = disk_size d \<and> disk_blocks d' = disk_blocks d \<and> dev_ready d' = dev_ready d"
proof -
  have "disk_size d1 = disk_size d \<and> disk_blocks d1 = disk_blocks d \<and> dev_ready d1 = dev_ready d"
    if "parse_pages d buf i k es = Some (ok, d1, es')" for i k es ok d1 es'
    using parse_pages_device [OF that] by (simp add: SetStatusCode_def split: if_splits)
  then show ?thesis
    using assms
    by (auto simp add: ModeSelect_def Let_def after_pages_def SetStatusCode_def
        split: if_splits bool.splits)
qed

lemma header_mismatch_reads:
  "set (snd (header_mismatch d buf)) \<subseteq> {Read_buf 9, Read_buf 10, Read_buf 11}"
  by (simp add: header_mismatch_def Let_def)

text \<open>
  C4. A call with the PF bit and a length of at least 12, on a device whose sector size
  the three-byte field can hold (an exponent below 24; \<^verbatim>\<open>Open\<close> sets 9 and nothing else
  in the file sets it): if the big-endian
  block length in bytes 9 to 11 of the header is not \<open>1 << disk.size\<close>, the call sets the
  status to InvalidParam and returns \<^verbatim>\<open>FALSE\<close>; it reads no byte but those of the header,
  so no page, and changes no field but the status, so neither the sector size exponent nor
  the block count.
\<close>

theorem ModeSelect_header_mismatch:
  assumes "cdb 1 AND 0x10 \<noteq> 0" and "12 \<le> len" and "disk_size d < 24"
    and "unat (buf 9) * 65536 + unat (buf 10) * 256 + unat (buf 11) \<noteq> 2 ^ disk_size d"
  shows "\<exists>d' tr. ModeSelect cdb buf len d = Some (Returns False, d', tr)
           \<and> d' = d\<lparr>dev_status := STATUS_INVALIDPRM\<rparr>
           \<and> disk_size d' = disk_size d \<and> disk_blocks d' = disk_blocks d
           \<and> set tr \<subseteq> {Read_buf 9, Read_buf 10, Read_buf 11}"
proof -
  from assms(3,4) have "fst (header_mismatch d buf)"
    by (simp add: header_mismatch_iff)
  with assms(1,2) have "ModeSelect cdb buf len d =
      Some (Returns False, d\<lparr>dev_status := STATUS_INVALIDPRM\<rparr>, snd (header_mismatch d buf))"
    by (simp add: ModeSelect_def Let_def SetStatusCode_def)
  then show ?thesis
    using header_mismatch_reads [of d buf] by simp
qed

theorem ModeSelect_header_mismatch_witness:
  "select_cdb 1 AND 0x10 \<noteq> 0
   \<and> (12::int) \<le> 12
   \<and> disk_size opened_device < 24
   \<and> unat (array_of [0, 0, 0, 8, 0, 0, 0, 0, 0, 0x00, 0x04, 0x00 :: BYTE] 9) * 65536
       + unat (array_of [0, 0, 0, 8, 0, 0, 0, 0, 0, 0x00, 0x04, 0x00 :: BYTE] 10) * 256
       + unat (array_of [0, 0, 0, 8, 0, 0, 0, 0, 0, 0x00, 0x04, 0x00 :: BYTE] 11)
       \<noteq> 2 ^ disk_size opened_device
   \<and> ModeSelect select_cdb (array_of [0, 0, 0, 8, 0, 0, 0, 0, 0, 0x00, 0x04, 0x00]) 12 opened_device =
       Some (Returns False, opened_device\<lparr>dev_status := STATUS_INVALIDPRM\<rparr>,
             [Read_buf 9, Read_buf 10])
   \<and> (\<exists>d' tr.
         ModeSelect select_cdb (array_of [0, 0, 0, 8, 0, 0, 0, 0, 0, 0x00, 0x04, 0x00]) 12 opened_device =
           Some (Returns False, d', tr)
         \<and> d' = opened_device\<lparr>dev_status := STATUS_INVALIDPRM\<rparr>
         \<and> disk_size d' = disk_size opened_device
         \<and> disk_blocks d' = disk_blocks opened_device
         \<and> set tr \<subseteq> {Read_buf 9, Read_buf 10, Read_buf 11})"
proof -
  have a: "select_cdb 1 AND 0x10 \<noteq> 0" by (simp add: select_cdb_def array_of_def)
  have b: "(12::int) \<le> 12" by simp
  have c: "disk_size opened_device < 24" by (simp add: opened_device_def)
  have e: "unat (array_of [0, 0, 0, 8, 0, 0, 0, 0, 0, 0x00, 0x04, 0x00 :: BYTE] 9) * 65536
       + unat (array_of [0, 0, 0, 8, 0, 0, 0, 0, 0, 0x00, 0x04, 0x00 :: BYTE] 10) * 256
       + unat (array_of [0, 0, 0, 8, 0, 0, 0, 0, 0, 0x00, 0x04, 0x00 :: BYTE] 11)
       \<noteq> 2 ^ disk_size opened_device"
    by (simp add: array_of_def opened_device_def closed_device_def)
  have s: "sector_size opened_device = 512"
    by (simp add: sector_size_def opened_device_def closed_device_def)
  have v: "ModeSelect select_cdb (array_of [0, 0, 0, 8, 0, 0, 0, 0, 0, 0x00, 0x04, 0x00]) 12 opened_device =
       Some (Returns False, opened_device\<lparr>dev_status := STATUS_INVALIDPRM\<rparr>,
             [Read_buf 9, Read_buf 10])"
    by (simp add: ModeSelect_def Let_def header_mismatch_def s array_of_def select_cdb_def
        SetStatusCode_def)
  from a b c e v ModeSelect_header_mismatch
         [where cdb = select_cdb and len = 12 and d = opened_device
            and buf = "array_of [0, 0, 0, 8, 0, 0, 0, 0, 0, 0x00, 0x04, 0x00]", OF a b c e]
  show ?thesis by (intro conjI)
qed

subsection \<open>ModeSelect: reads past the length\<close>

text \<open>
  C2, where the code does not keep to it. A call with the PF bit and a length from 1 to 11
  has no header; if its first byte is the page code 0x03, \<^verbatim>\<open>case 0x03\<close> reads \<^verbatim>\<open>buf[0xc]\<close>
  without a look at the length, so the call reads offset 12, which is not below the length.
\<close>

theorem ModeSelect_reads_past_length:
  assumes "cdb 1 AND 0x10 \<noteq> 0" and "0 < len" and "len < 12" and "buf 0 = 0x03"
  shows "\<exists>r d' tr. ModeSelect cdb buf len d = Some (r, d', tr)
           \<and> 12 \<in> set (reads_of tr) \<and> \<not> 12 < len"
proof -
  obtain res d1 tr where p: "parse_pages d buf 0 len [] = Some (res, d1, tr)"
    using parse_pages_returns [of d buf 0 len "[]"] by (metis prod_cases3)
  have sw: "snd (page_switch d buf 0 len) = Read_buf 0 # snd (format_mismatch d buf 0)"
    using assms(4) by (simp add: page_switch_def Let_def)
  have "\<exists>es. snd (format_mismatch d buf 0) = Read_buf 12 # es"
    by (simp add: format_mismatch_def Let_def)
  then obtain es where fm: "snd (format_mismatch d buf 0) = Read_buf 12 # es"
    by blast
  have "\<exists>ev. tr = Read_buf 0 # Read_buf 12 # ev"
  proof (cases "fst (page_switch d buf 0 len)")
    case True
    with p assms(2) have "tr = snd (page_switch d buf 0 len)"
      by (simp add: parse_pages_stop)
    then show ?thesis by (simp add: sw fm)
  next
    case False
    have "parse_pages d buf (0 + page_size buf 0) (len - int (page_size buf 0))
        ([] @ snd (page_switch d buf 0 len) @ [Read_buf (0 + 1)]) = Some (res, d1, tr)"
      using parse_pages_step [OF assms(2) False, of "[]"] p by simp
    from parse_pages_extends [OF this] show ?thesis by (auto simp add: sw fm)
  qed
  then have "12 \<in> set (reads_of tr)" by auto
  moreover have "\<exists>r d'. ModeSelect cdb buf len d = Some (r, d', tr)"
    using assms(1,2,3) p by (simp add: ModeSelect_def after_pages_def split: bool.splits)
  ultimately show ?thesis using assms(3) by auto
qed

theorem ModeSelect_reads_past_length_witness:
  "select_cdb 1 AND 0x10 \<noteq> 0
   \<and> (0::int) < 2 \<and> (2::int) < 12
   \<and> array_of [0x03, 0x00 :: BYTE] 0 = 0x03
   \<and> ModeSelect select_cdb (array_of [0x03, 0x00]) 2 opened_device =
       Some (Returns False, opened_device\<lparr>dev_status := STATUS_INVALIDPRM\<rparr>,
             [Read_buf 0, Read_buf 12])
   \<and> (\<exists>r d' tr. ModeSelect select_cdb (array_of [0x03, 0x00]) 2 opened_device = Some (r, d', tr)
         \<and> 12 \<in> set (reads_of tr) \<and> \<not> (12::int) < 2)"
proof -
  have a: "select_cdb 1 AND 0x10 \<noteq> 0" by (simp add: select_cdb_def array_of_def)
  have b: "(0::int) < 2" by simp
  have c: "(2::int) < 12" by simp
  have e: "array_of [0x03, 0x00 :: BYTE] 0 = 0x03" by (simp add: array_of_def)
  have s: "sector_size opened_device = 512"
    by (simp add: sector_size_def opened_device_def closed_device_def)
  have v: "ModeSelect select_cdb (array_of [0x03, 0x00]) 2 opened_device =
       Some (Returns False, opened_device\<lparr>dev_status := STATUS_INVALIDPRM\<rparr>,
             [Read_buf 0, Read_buf 12])"
    by (simp add: ModeSelect_def select_cdb_def array_of_def parse_pages.simps page_switch_def
        format_mismatch_def s after_pages_def SetStatusCode_def Let_def)
  from a b c e v ModeSelect_reads_past_length
         [where cdb = select_cdb and len = 2 and buf = "array_of [0x03, 0x00]"
            and d = opened_device, OF a b c e]
  show ?thesis by (intro conjI)
qed

text \<open>
  The length byte is read the same way: with one byte remaining, \<^verbatim>\<open>size = buf[1] + 2\<close>
  reads offset 1 of a block of length 1.
\<close>

lemma ModeSelect_reads_length_byte_past_length:
  assumes "cdb 1 AND 0x10 \<noteq> 0" and "buf 0 \<noteq> 0x03"
  shows "\<exists>r d' tr. ModeSelect cdb buf 1 d = Some (r, d', tr) \<and> 1 \<in> set (reads_of tr)"
proof -
  obtain res d1 tr where p: "parse_pages d buf 0 1 [] = Some (res, d1, tr)"
    using parse_pages_returns [of d buf 0 1 "[]"] by (metis prod_cases3)
  have ns: "\<not> fst (page_switch d buf 0 1)"
    using assms(2) by (simp add: fst_page_switch)
  have "parse_pages d buf (0 + page_size buf 0) (1 - int (page_size buf 0))
        ([] @ snd (page_switch d buf 0 1) @ [Read_buf (0 + 1)]) = Some (res, d1, tr)"
    using parse_pages_step [OF _ ns, of "[]"] p by simp
  from parse_pages_extends [OF this] obtain ev
    where "tr = snd (page_switch d buf 0 1) @ Read_buf 1 # ev" by auto
  then have "Read_buf 1 \<in> set tr" by simp
  then have "1 \<in> set (reads_of tr)" by (induction tr rule: reads_of.induct) auto
  moreover have "\<exists>r d'. ModeSelect cdb buf 1 d = Some (r, d', tr)"
    using assms(1) p by (simp add: ModeSelect_def after_pages_def split: bool.splits)
  ultimately show ?thesis by auto
qed

text \<open>
  The reads stay within the length for a block whose pages do: when every page that the
  loop meets ends at or before the length, and every page with code 0x03 among them has
  at least 14 bytes, every offset the call reads is below the length.
\<close>

lemma reads_of_append: "reads_of (xs @ ys) = reads_of xs @ reads_of ys"
  by (induction xs rule: reads_of.induct) simp_all

lemma reads_of_dump_page: "reads_of (dump_page buf off len) = map (\<lambda>i. off + i) [0..<nat len]"
proof -
  have "reads_of (concat (map (\<lambda>i. [Read_buf (off + i), Print_byte (buf (off + i))]) [0..<n]))
          = map (\<lambda>i. off + i) [0..<n]" for n
    by (induction n) (simp_all add: reads_of_append)
  then show ?thesis by (simp add: dump_page_def)
qed

lemma page_switch_reads:
  assumes "0 < len" and "int (off + page_size buf off) \<le> int off + len"
    and "buf off = 0x03 \<longrightarrow> 14 \<le> page_size buf off"
  shows "\<forall>i \<in> set (reads_of (snd (page_switch d buf off len))). int i < int off + len"
proof (cases "buf off = 0x03")
  case True
  with assms(3) have "14 \<le> page_size buf off" by simp
  with assms(2) have "int (off + 13) < int off + len" by simp
  moreover have "set (reads_of (snd (format_mismatch d buf off))) \<subseteq> {off + 12, off + 13}"
    by (simp add: format_mismatch_def Let_def)
  ultimately show ?thesis
    using True assms(1) by (auto simp add: page_switch_def Let_def)
next
  case False
  then show ?thesis
    using assms(1) by (auto simp add: page_switch_def Let_def reads_of_dump_page reads_of_append)
qed

lemma parse_pages_reads:
  assumes "parse_pages d buf off len tr = Some (r, d', tr')"
    and "\<forall>i \<in> set (reads_of tr). int i < B"
    and "int off + len = B"
    and "\<forall>p \<in> set (spec_pages buf off len).
           int (p + page_size buf p) \<le> B \<and> (buf p = 0x03 \<longrightarrow> 14 \<le> page_size buf p)"
  shows "\<forall>i \<in> set (reads_of tr'). int i < B"
  using assms
proof (induction "nat len" arbitrary: off len tr rule: less_induct)
  case less
  show ?case
  proof (cases "0 < len")
    case False
    with less.prems(1,2) show ?thesis by (simp add: parse_pages_end)
  next
    case True
    from less.prems(4) have fit: "int (off + page_size buf off) \<le> B"
      and fmt: "buf off = 0x03 \<longrightarrow> 14 \<le> page_size buf off"
      and rest: "\<forall>p \<in> set (spec_pages buf (off + page_size buf off) (len - int (page_size buf off))).
           int (p + page_size buf p) \<le> B \<and> (buf p = 0x03 \<longrightarrow> 14 \<le> page_size buf p)"
      by (simp_all add: spec_pages_step [OF True])
    have sw: "\<forall>i \<in> set (reads_of (snd (page_switch d buf off len))). int i < B"
      using page_switch_reads [OF True _ fmt, of d] fit less.prems(3) by simp
    have "2 \<le> page_size buf off" by (simp add: page_size_def)
    with fit have lb: "int (off + 1) < B" by simp
    show ?thesis
    proof (cases "fst (page_switch d buf off len)")
      case True
      with \<open>0 < len\<close> less.prems(1) have "tr' = tr @ snd (page_switch d buf off len)"
        by (simp add: parse_pages_stop)
      with less.prems(2) sw show ?thesis by (auto simp add: reads_of_append)
    next
      case False
      from less.prems(1) have run: "parse_pages d buf (off + page_size buf off) (len - int (page_size buf off))
           (tr @ snd (page_switch d buf off len) @ [Read_buf (off + 1)]) = Some (r, d', tr')"
        by (simp add: parse_pages_step [OF True False])
      have acc: "\<forall>i \<in> set (reads_of (tr @ snd (page_switch d buf off len) @ [Read_buf (off + 1)])).
                  int i < B"
        using less.prems(2) sw lb by (auto simp add: reads_of_append)
      have inv: "int (off + page_size buf off) + (len - int (page_size buf off)) = B"
        using less.prems(3) by simp
      from less.hyps [OF page_size_decreases [OF True] run acc inv rest] show ?thesis .
    qed
  qed
qed

lemma ModeSelect_reads_within_length:
  assumes "ModeSelect cdb buf len d = Some (r, d', tr)"
    and "\<forall>p \<in> set (if 12 \<le> len then spec_pages buf 12 (len - 12) else spec_pages buf 0 len).
           int (p + page_size buf p) \<le> len \<and> (buf p = 0x03 \<longrightarrow> 14 \<le> page_size buf p)"
  shows "\<forall>i \<in> set (reads_of tr). int i < len"
proof (cases "0 \<le> len \<and> cdb 1 AND 0x10 \<noteq> 0")
  case False
  with assms(1) show ?thesis by (auto simp add: ModeSelect_def split: if_splits)
next
  case pf: True
  show ?thesis
  proof (cases "12 \<le> len")
    case True
    have hd: "\<forall>i \<in> set (reads_of (snd (header_mismatch d buf))). int i < len"
      using True by (simp add: header_mismatch_def Let_def)
    show ?thesis
    proof (cases "fst (header_mismatch d buf)")
      case True
      with assms(1) pf \<open>12 \<le> len\<close> hd show ?thesis
        by (auto simp add: ModeSelect_def Let_def)
    next
      case False
      with assms(1) pf \<open>12 \<le> len\<close> obtain ok d1
        where "parse_pages d buf 12 (len - 12) (snd (header_mismatch d buf)) = Some (ok, d1, tr)"
        by (auto simp add: ModeSelect_def Let_def after_pages_def split: bool.splits)
      from parse_pages_reads [OF this hd] assms(2) \<open>12 \<le> len\<close> show ?thesis by simp
    qed
  next
    case False
    with assms(1) pf obtain ok d1 where "parse_pages d buf 0 len [] = Some (ok, d1, tr)"
      by (auto simp add: ModeSelect_def Let_def after_pages_def split: bool.splits)
    from parse_pages_reads [OF this, of len] assms(2) False show ?thesis by simp
  qed
qed

subsection \<open>ModeSelect: termination\<close>

text \<open>
  C10. For every buffer and every length the loop over the pages ends, and so does the
  call: an iteration advances by \<^verbatim>\<open>buf[1] + 2\<close>, which is at least 2, and leaves a remaining
  length that is smaller by as much.
\<close>

theorem ModeSelect_terminates:
  "(\<exists>r. parse_pages d buf off len tr = Some r)
   \<and> (\<exists>r. ModeSelect cdb buf len d = Some r)
   \<and> 2 \<le> page_size buf off
   \<and> len - int (page_size buf off) < len"
proof -
  have a: "\<exists>r. parse_pages d buf off len tr = Some r" by (rule parse_pages_returns)
  obtain r1 where r1: "parse_pages d buf 12 (len - 12) (snd (header_mismatch d buf)) = Some r1"
    using parse_pages_returns by blast
  obtain r2 where r2: "parse_pages d buf 0 len [] = Some r2"
    using parse_pages_returns by blast
  have e: "\<exists>a b c. x = (a, b, c)" for x :: "bool outcome \<times> SCSIHD \<times> event list"
    by (cases x) simp
  have b: "\<exists>r. ModeSelect cdb buf len d = Some r"
    by (simp add: ModeSelect_def Let_def r1 r2 e)
  have c: "2 \<le> page_size buf off" by (simp add: page_size_def)
  then have "len - int (page_size buf off) < len" by simp
  with a b c show ?thesis by (intro conjI)
qed

end
